theory Spec2Isabelle
  imports Main "HOL-Library.AList" "HOL-Library.Sublist"
begin

section \<open>Values, failures and the world the program runs in\<close>

text \<open>
  The values the cache and the repository handle are JSON-like JavaScript values.
  A species record (the \<open>Species\<close> interface) is kept as a typed record inside the
  value universe; \<open>Obj\<close> stands for every other object.  Numbers are integers
  (timestamps and counts in milliseconds); strings are ASCII byte strings.
\<close>

datatype Endangerment = LC | NT | VU | EN | CR

record Bullets =
  habitat :: string
  diet :: string
  personality :: string

record Species =
  speciesId :: string
  name :: string
  endangerment :: Endangerment
  bullets :: Bullets
  photoURLs :: "string list"

datatype jsval =
    Undefined
  | Null
  | Bool bool
  | Num int
  | Str string
  | Arr "jsval list"
  | SpeciesV Species
  | Obj "(string \<times> jsval) list"

text \<open>
  A thrown value is either an \<open>Error\<close> instance, which carries a message, or any
  other value (JavaScript lets a program throw anything).
\<close>

datatype thrown = Error string | NonError jsval

text \<open>JavaScript truthiness, as used by \<open>if (x)\<close>, \<open>!x\<close> and \<open>x && y\<close>.\<close>

fun truthy :: "jsval \<Rightarrow> bool" where
  "truthy Undefined = False"
| "truthy Null = False"
| "truthy (Bool b) = b"
| "truthy (Num n) = (n \<noteq> 0)"
| "truthy (Str s) = (s \<noteq> [])"
| "truthy (Arr xs) = True"
| "truthy (SpeciesV sp) = True"
| "truthy (Obj fs) = True"

fun isArray :: "jsval \<Rightarrow> bool" where
  "isArray (Arr xs) = True"
| "isArray v = False"

text \<open>
  Modelled from the spec: the type guard \<open>isSpecies\<close> of \<open>domain/types\<close> is not
  among the sources.  A value passes it exactly when it is a species record
  (identifier, name, one of the five conservation categories, the three descriptive
  fields and the list of image references).
\<close>

fun isSpecies :: "jsval \<Rightarrow> bool" where
  "isSpecies (SpeciesV sp) = True"
| "isSpecies v = False"

subsection \<open>Cache entries and the persistent store\<close>

record CacheEntry =
  val :: jsval
  expiresAt :: int
  lastAccess :: int

text \<open>
  What the program reads of a \<open>fetch\<close> response: the status, the \<open>ok\<close> flag (for a
  real response it says that the status is in 200..299; the two are kept as independent
  fields, which also covers test doubles), the \<open>ETag\<close> header if any, and what
  \<open>response.json()\<close> gives, which raises when the body does not parse.
\<close>

record HttpResponse =
  status :: int
  ok :: bool
  etagHeader :: "string option"
  json :: "thrown + jsval"

text \<open>
  The environment holds what the program does not control: which store operations
  fail (indexed by the number of store operations performed so far), what the network
  answers to the n-th \<open>fetch\<close> for a URL and an \<open>If-None-Match\<close> header, the bundled
  dataset, and the two JavaScript built-ins that are used as black boxes
  (\<open>encodeURIComponent\<close>, which raises on malformed input, and \<open>String\<close>).
\<close>

record env =
  storeFault :: "nat \<Rightarrow> thrown option"
  network :: "nat \<Rightarrow> string \<Rightarrow> jsval option \<Rightarrow> thrown + HttpResponse"
  coreSpecies :: "Species list"
  encodeURIComponent :: "string \<Rightarrow> thrown + string"
  js_String :: "jsval \<Rightarrow> string"

text \<open>
  The world is the state the program reads and changes: the key-value store (an
  association list from string keys to entries, each key once, enumerated in insertion
  order as a JavaScript \<open>Map\<close> does; no property below depends on the order), the
  number of store operations and of \<open>fetch\<close> calls made so far, the wall clock read by
  \<open>Date.now()\<close> (it advances only by \<open>setTimeout\<close> here, or between calls, so all
  readings within one cache operation agree), and the delays waited for so far.
\<close>

record world =
  idb :: "(string \<times> CacheEntry) list"
  idbCalls :: nat
  fetchCalls :: nat
  now :: int
  timers :: "int list"

type_synonym 'a io = "world \<Rightarrow> (thrown + 'a) \<times> world"

definition ret :: "'a \<Rightarrow> 'a io" where
  "ret x = (\<lambda>s. (Inr x, s))"

definition throw :: "thrown \<Rightarrow> 'a io" where
  "throw e = (\<lambda>s. (Inl e, s))"

definition bind :: "'a io \<Rightarrow> ('a \<Rightarrow> 'b io) \<Rightarrow> 'b io" where
  "bind m f = (\<lambda>s. case m s of (Inl e, s') \<Rightarrow> (Inl e, s') | (Inr x, s') \<Rightarrow> f x s')"

definition tryCatch :: "'a io \<Rightarrow> (thrown \<Rightarrow> 'a io) \<Rightarrow> 'a io" where
  "tryCatch m h = (\<lambda>s. case m s of (Inl e, s') \<Rightarrow> h e s' | (Inr x, s') \<Rightarrow> (Inr x, s'))"

text \<open>The five operations of the store adapter (\<open>idb-keyval\<close>); each may fail.\<close>

definition storeOp :: "env \<Rightarrow> (world \<Rightarrow> 'a \<times> world) \<Rightarrow> 'a io" where
  "storeOp env f = (\<lambda>s.
     let s' = s\<lparr>idbCalls := Suc (idbCalls s)\<rparr>
     in case storeFault env (idbCalls s) of
          Some e \<Rightarrow> (Inl e, s')
        | None \<Rightarrow> (case f s' of (x, s'') \<Rightarrow> (Inr x, s'')))"

definition idbGet :: "env \<Rightarrow> string \<Rightarrow> CacheEntry option io" where
  "idbGet env k = storeOp env (\<lambda>s. (map_of (idb s) k, s))"

definition idbSet :: "env \<Rightarrow> string \<Rightarrow> CacheEntry \<Rightarrow> unit io" where
  "idbSet env k e = storeOp env (\<lambda>s. ((), s\<lparr>idb := AList.update k e (idb s)\<rparr>))"

definition idbDel :: "env \<Rightarrow> string \<Rightarrow> unit io" where
  "idbDel env k = storeOp env (\<lambda>s. ((), s\<lparr>idb := AList.delete k (idb s)\<rparr>))"

definition idbKeys :: "env \<Rightarrow> string list io" where
  "idbKeys env = storeOp env (\<lambda>s. (map fst (idb s), s))"

section \<open>The cache engine\<close>

definition CACHE_PREFIX :: string where
  "CACHE_PREFIX = ''sea-here-cache:''"

definition getCacheKey :: "string \<Rightarrow> string" where
  "getCacheKey key = CACHE_PREFIX @ key"

definition isCacheKey :: "string \<Rightarrow> bool" where
  "isCacheKey key = prefix CACHE_PREFIX key"

definition cache_get :: "env \<Rightarrow> string \<Rightarrow> jsval io" where
  "cache_get env key =
     tryCatch
       (bind (idbGet env (getCacheKey key)) (\<lambda>entry.
          case entry of
            None \<Rightarrow> ret Undefined
          | Some e \<Rightarrow> (\<lambda>s.
              if now s > expiresAt e
              then bind (idbDel env (getCacheKey key)) (\<lambda>_. ret Undefined) s
              else bind (idbSet env (getCacheKey key) (e\<lparr>lastAccess := now s\<rparr>))
                        (\<lambda>_. ret (val e)) s)))
       (\<lambda>error. ret Undefined)"

definition cache_set :: "env \<Rightarrow> string \<Rightarrow> jsval \<Rightarrow> int \<Rightarrow> unit io" where
  "cache_set env key v ttlMs =
     tryCatch
       (\<lambda>s. idbSet env (getCacheKey key)
               \<lparr>val = v, expiresAt = now s + ttlMs, lastAccess = now s\<rparr> s)
       (\<lambda>error. throw error)"

text \<open>The rows \<open>{key, lastAccess, expiresAt}\<close> that the eviction pass collects.\<close>

record LRURow =
  key :: string
  rowLastAccess :: int
  rowExpiresAt :: int

fun collectLive :: "env \<Rightarrow> string list \<Rightarrow> LRURow list \<Rightarrow> LRURow list io" where
  "collectLive env [] entries = ret entries"
| "collectLive env (cacheKey # rest) entries =
     bind (idbGet env cacheKey) (\<lambda>entry.
       case entry of
         None \<Rightarrow> collectLive env rest entries
       | Some e \<Rightarrow> (\<lambda>s.
           if now s \<le> expiresAt e
           then collectLive env rest
                  (entries @ [\<lparr>key = cacheKey, rowLastAccess = lastAccess e,
                               rowExpiresAt = expiresAt e\<rparr>]) s
           else bind (idbDel env cacheKey) (\<lambda>_. collectLive env rest entries) s))"

fun delAll :: "env \<Rightarrow> string list \<Rightarrow> unit io" where
  "delAll env [] = ret ()"
| "delAll env (k # ks) = bind (idbDel env k) (\<lambda>_. delAll env ks)"

definition evictLRUIfNeeded :: "env \<Rightarrow> int \<Rightarrow> unit io" where
  "evictLRUIfNeeded env maxEntries =
     tryCatch
       (bind (idbKeys env) (\<lambda>allKeys.
          let cacheKeys = filter isCacheKey allKeys
          in if int (length cacheKeys) \<le> maxEntries then ret ()
             else bind (collectLive env cacheKeys []) (\<lambda>entries.
               let sorted = sort_key rowLastAccess entries;
                   entriesToEvict = int (length sorted) - maxEntries
               in if entriesToEvict > 0
                  then delAll env (map key (take (nat entriesToEvict) sorted))
                  else ret ())))
       (\<lambda>error. throw error)"

definition cache_clear :: "env \<Rightarrow> unit io" where
  "cache_clear env =
     tryCatch
       (bind (idbKeys env) (\<lambda>allKeys. delAll env (filter isCacheKey allKeys)))
       (\<lambda>error. throw error)"

record Stats =
  totalEntries :: nat
  expiredEntries :: nat
  validEntries :: nat

fun countEntries :: "env \<Rightarrow> int \<Rightarrow> string list \<Rightarrow> nat \<Rightarrow> nat \<Rightarrow> (nat \<times> nat) io" where
  "countEntries env t [] expired valid = ret (expired, valid)"
| "countEntries env t (cacheKey # rest) expired valid =
     bind (idbGet env cacheKey) (\<lambda>entry.
       case entry of
         None \<Rightarrow> countEntries env t rest expired valid
       | Some e \<Rightarrow>
           if t > expiresAt e
           then countEntries env t rest (Suc expired) valid
           else countEntries env t rest expired (Suc valid))"

definition getStats :: "env \<Rightarrow> Stats io" where
  "getStats env =
     tryCatch
       (bind (idbKeys env) (\<lambda>allKeys. \<lambda>s.
          let cacheKeys = filter isCacheKey allKeys
          in bind (countEntries env (now s) cacheKeys 0 0) (\<lambda>(expired, valid).
               ret \<lparr>totalEntries = length cacheKeys, expiredEntries = expired,
                    validEntries = valid\<rparr>) s))
       (\<lambda>error. ret \<lparr>totalEntries = 0, expiredEntries = 0, validEntries = 0\<rparr>)"

section \<open>The backoff utility\<close>

text \<open>
  \<open>withBackoff\<close> is generic in the operation it retries, so the model is generic in
  the state the operation works on; its own only effect is the timed wait, passed in as
  \<open>wait\<close> (for the program's world this is \<open>setTimeout\<close> below).  The options are
  optional fields with defaults.
\<close>

type_synonym ('s, 'a) prog = "'s \<Rightarrow> (thrown + 'a) \<times> 's"

record BackoffOptions =
  maxRetries :: "int option"
  baseDelayMs :: "int option"
  maxDelayMs :: "int option"

text \<open>\<open>error instanceof Error ? error : new Error(String(error))\<close>\<close>

definition toError :: "(jsval \<Rightarrow> string) \<Rightarrow> thrown \<Rightarrow> thrown" where
  "toError str error = (case error of Error m \<Rightarrow> Error m | NonError v \<Rightarrow> Error (str v))"

text \<open>
  The \<open>for\<close> loop, entered with the current \<open>attempt\<close> and \<open>lastError\<close>.  Leaving
  the loop (by \<open>break\<close> or because the loop condition fails) reaches
  \<open>throw lastError\<close>.
\<close>

function backoffLoop ::
  "(jsval \<Rightarrow> string) \<Rightarrow> (int \<Rightarrow> 's \<Rightarrow> 's) \<Rightarrow> ('s, 'a) prog \<Rightarrow> int \<Rightarrow> int \<Rightarrow> int \<Rightarrow>
   int \<Rightarrow> thrown \<Rightarrow> ('s, 'a) prog" where
  "backoffLoop str wait operation maxR baseD maxD attempt lastError s =
     (if attempt \<le> maxR
      then (case operation s of
              (Inr v, s1) \<Rightarrow> (Inr v, s1)
            | (Inl error, s1) \<Rightarrow>
                if attempt = maxR then (Inl (toError str error), s1)
                else backoffLoop str wait operation maxR baseD maxD (attempt + 1)
                       (toError str error)
                       (wait (min (baseD * 2 ^ nat attempt) maxD) s1))
      else (Inl lastError, s))"
  by pat_completeness auto
termination
  by (relation "measure (\<lambda>(str, wait, operation, maxR, baseD, maxD, attempt, lastError, s).
                  nat (maxR + 1 - attempt))") auto

declare backoffLoop.simps [simp del]

text \<open>\<open>let lastError: Error\<close> is unassigned, that is \<open>undefined\<close>, before the loop.\<close>

definition orDefault :: "int option \<Rightarrow> int \<Rightarrow> int" where
  "orDefault given dflt = (case given of Some n \<Rightarrow> n | None \<Rightarrow> dflt)"

definition withBackoffOn ::
  "(jsval \<Rightarrow> string) \<Rightarrow> (int \<Rightarrow> 's \<Rightarrow> 's) \<Rightarrow> ('s, 'a) prog \<Rightarrow> BackoffOptions \<Rightarrow> ('s, 'a) prog" where
  "withBackoffOn str wait operation options =
     backoffLoop str wait operation
       (orDefault (maxRetries options) 2)
       (orDefault (baseDelayMs options) 100)
       (orDefault (maxDelayMs options) 2000)
       0 (NonError Undefined)"

text \<open>
  \<open>await new Promise(resolve => setTimeout(resolve, delay))\<close>: the clock moves on
  by the delay (a negative delay fires at once) and the delay is logged.
\<close>

definition setTimeout :: "int \<Rightarrow> world \<Rightarrow> world" where
  "setTimeout delay s = s\<lparr>now := now s + max 0 delay, timers := timers s @ [delay]\<rparr>"

definition withBackoff :: "env \<Rightarrow> 'a io \<Rightarrow> BackoffOptions \<Rightarrow> 'a io" where
  "withBackoff env operation options =
     withBackoffOn (js_String env) setTimeout operation options"

section \<open>The data repository\<close>

subsection \<open>Strings\<close>

text \<open>
  \<open>trim\<close> removes white space at both ends, \<open>toLowerCase\<close> maps \<open>A..Z\<close> to
  \<open>a..z\<close>, \<open>join\<close> puts a separator between the parts, and \<open>includes\<close> is the
  contiguous-substring test (\<^const>\<open>sublist\<close>).  All on ASCII.
\<close>

definition isSpace :: "char \<Rightarrow> bool" where
  "isSpace c = (let n = (of_char c :: nat) in (9 \<le> n \<and> n \<le> 13) \<or> n = 32)"

definition trim :: "string \<Rightarrow> string" where
  "trim str = rev (dropWhile isSpace (rev (dropWhile isSpace str)))"

definition toLowerCase :: "string \<Rightarrow> string" where
  "toLowerCase str =
     map (\<lambda>c. let n = (of_char c :: nat) in if 65 \<le> n \<and> n \<le> 90 then char_of (n + 32) else c) str"

fun join :: "string \<Rightarrow> string list \<Rightarrow> string" where
  "join sep [] = []"
| "join sep [x] = x"
| "join sep (x # y # ys) = x @ sep @ join sep (y # ys)"

subsection \<open>Keys, time-to-live values and the bundled dataset\<close>

definition key_species :: "string \<Rightarrow> string" where
  "key_species sid = ''species:'' @ sid"


definition key_etag :: "string \<Rightarrow> string" where
  "key_etag url = ''etag:'' @ url"

definition key_searchResults :: "string \<Rightarrow> string" where
  "key_searchResults query = ''search:'' @ query"

definition ttl_species :: int where
  "ttl_species = 24 * 60 * 60 * 1000"


definition ttl_etag :: int where
  "ttl_etag = 24 * 60 * 60 * 1000"

definition ttl_search :: int where
  "ttl_search = 30 * 60 * 1000"

text \<open>
  \<open>coreSpeciesById\<close> is built by a \<open>reduce\<close> that assigns \<open>acc[species.id] = species\<close>,
  so a later record wins over an earlier one with the same identifier.
\<close>

definition coreSpeciesById :: "env \<Rightarrow> string \<Rightarrow> Species option" where
  "coreSpeciesById env =
     foldl (\<lambda>acc species. acc(speciesId species \<mapsto> species)) Map.empty (coreSpecies env)"

definition getCoreSpeciesById :: "env \<Rightarrow> string \<Rightarrow> Species option" where
  "getCoreSpeciesById env sid = coreSpeciesById env sid"

subsection \<open>Conditional fetch, local search and merge\<close>

text \<open>
  \<open>liftE\<close> runs a step that either raises or returns without touching the world;
  \<open>fetch\<close> asks the network and counts the call; \<open>fetchOperation\<close> is the closure
  handed to \<open>withBackoff\<close>: the HTTP call and the caching of the validator.
\<close>

definition liftE :: "thrown + 'a \<Rightarrow> 'a io" where
  "liftE r = (case r of Inl e \<Rightarrow> throw e | Inr x \<Rightarrow> ret x)"

definition fetch :: "env \<Rightarrow> string \<Rightarrow> jsval option \<Rightarrow> HttpResponse io" where
  "fetch env url ifNoneMatch = (\<lambda>s.
     (network env (fetchCalls s) url ifNoneMatch, s\<lparr>fetchCalls := Suc (fetchCalls s)\<rparr>))"

definition fetchOperation :: "env \<Rightarrow> string \<Rightarrow> jsval option \<Rightarrow> HttpResponse io" where
  "fetchOperation env url ifNoneMatch =
     bind (fetch env url ifNoneMatch) (\<lambda>response.
       case etagHeader response of
         None \<Rightarrow> ret response
       | Some etag \<Rightarrow>
           if etag \<noteq> []
           then bind (cache_set env (key_etag url) (Str etag) ttl_etag) (\<lambda>_. ret response)
           else ret response)"

definition fetchWithETag :: "env \<Rightarrow> string \<Rightarrow> HttpResponse io" where
  "fetchWithETag env url =
     bind (cache_get env (key_etag url)) (\<lambda>cachedETag.
       withBackoff env
         (fetchOperation env url (if truthy cachedETag then Some cachedETag else None))
         \<lparr>maxRetries = None, baseDelayMs = None, maxDelayMs = None\<rparr>)"

definition fuzzySearchPreload :: "env \<Rightarrow> string \<Rightarrow> Species list" where
  "fuzzySearchPreload env query =
     (if trim query = [] then []
      else let searchTerm = trim (toLowerCase query)
           in filter (\<lambda>species.
                  sublist searchTerm
                    (toLowerCase (join '' '' [name species, habitat (bullets species),
                        diet (bullets species), personality (bullets species)])))
                (coreSpecies env))"

definition mergeSearchResults :: "Species list \<Rightarrow> Species list \<Rightarrow> Species list" where
  "mergeSearchResults local remote =
     foldl (\<lambda>merged species.
              if speciesId species \<in> set (map speciesId local) then merged
              else merged @ [species])
       local remote"

subsection \<open>The three accessors\<close>

text \<open>
  Each accessor starts with \<open>if (!id?.trim()) return ...\<close>, outside its \<open>try\<close>.
  The optional chaining only guards \<open>null\<close> and \<open>undefined\<close>; on any other value
  that is not a string, \<open>trim\<close> is not a function and the call raises a
  \<open>TypeError\<close>.  The inner \<open>try\<close> block of an accessor is a computation that yields
  \<open>Some v\<close> where it executes \<open>return v\<close> and \<open>None\<close> where control falls out of it.
\<close>

definition guardTrim :: "jsval \<Rightarrow> jsval \<Rightarrow> (string \<Rightarrow> jsval io) \<Rightarrow> jsval io" where
  "guardTrim arg whenBlank body =
     (case arg of
        Undefined \<Rightarrow> ret whenBlank
      | Null \<Rightarrow> ret whenBlank
      | Str str \<Rightarrow> if trim str = [] then ret whenBlank else body str
      | _ \<Rightarrow> throw (Error ''trim is not a function''))"

definition speciesFromApi :: "env \<Rightarrow> string \<Rightarrow> string \<Rightarrow> jsval option io" where
  "speciesFromApi env sid cacheKey =
     bind (liftE (encodeURIComponent env sid)) (\<lambda>encoded.
     bind (fetchWithETag env (''/api/species/'' @ encoded)) (\<lambda>response.
     bind (if status response = 304
           then bind (cache_get env cacheKey) (\<lambda>cachedData.
                  ret (if truthy cachedData \<and> isSpecies cachedData
                       then Some cachedData else None))
           else ret None) (\<lambda>returned.
       case returned of
         Some v \<Rightarrow> ret (Some v)
       | None \<Rightarrow>
           if ok response
           then bind (liftE (json response)) (\<lambda>data.
                  if isSpecies data
                  then bind (cache_set env cacheKey data ttl_species) (\<lambda>_. ret (Some data))
                  else ret None)
           else ret None)))"

definition ofPreload :: "Species option \<Rightarrow> jsval" where
  "ofPreload r = (case r of Some species \<Rightarrow> SpeciesV species | None \<Rightarrow> Undefined)"

definition getSpecies :: "env \<Rightarrow> jsval \<Rightarrow> jsval io" where
  "getSpecies env arg =
     guardTrim arg Undefined (\<lambda>sid.
       let cacheKey = key_species sid
       in tryCatch
            (bind (cache_get env cacheKey) (\<lambda>cached.
               if truthy cached \<and> isSpecies cached then ret cached
               else bind (tryCatch (speciesFromApi env sid cacheKey) (\<lambda>error. ret None))
                      (\<lambda>returned.
                        case returned of
                          Some v \<Rightarrow> ret v
                        | None \<Rightarrow>
                            (case getCoreSpeciesById env sid of
                               Some preloadSpecies \<Rightarrow>
                                 bind (cache_set env cacheKey (SpeciesV preloadSpecies) ttl_species)
                                   (\<lambda>_. ret (SpeciesV preloadSpecies))
                             | None \<Rightarrow> ret Undefined))))
            (\<lambda>error. ret (ofPreload (getCoreSpeciesById env sid))))"

text \<open>The species records of a validated array (\<open>remoteData.every(isSpecies)\<close>).\<close>

definition speciesOf :: "jsval list \<Rightarrow> Species list" where
  "speciesOf xs = concat (map (\<lambda>v. case v of SpeciesV species \<Rightarrow> [species] | _ \<Rightarrow> []) xs)"

definition searchFromApi :: "env \<Rightarrow> string \<Rightarrow> string \<Rightarrow> Species list \<Rightarrow> jsval option io" where
  "searchFromApi env query cacheKey localResults =
     bind (liftE (encodeURIComponent env query)) (\<lambda>encoded.
     bind (fetchWithETag env (''/api/search?q='' @ encoded)) (\<lambda>response.
     bind (if status response = 304
           then bind (cache_get env cacheKey) (\<lambda>cachedResults.
                  ret (if truthy cachedResults \<and> isArray cachedResults
                       then Some cachedResults else None))
           else ret None) (\<lambda>returned.
       case returned of
         Some v \<Rightarrow> ret (Some v)
       | None \<Rightarrow>
           if ok response
           then bind (liftE (json response)) (\<lambda>remoteData.
                  case remoteData of
                    Arr xs \<Rightarrow>
                      if list_all isSpecies xs
                      then let merged = Arr (map SpeciesV
                                          (mergeSearchResults localResults (speciesOf xs)))
                           in bind (cache_set env cacheKey merged ttl_search)
                                (\<lambda>_. ret (Some merged))
                      else ret None
                  | _ \<Rightarrow> ret None)
           else ret None)))"

definition search :: "env \<Rightarrow> jsval \<Rightarrow> jsval io" where
  "search env arg =
     guardTrim arg (Arr []) (\<lambda>query.
       let cacheKey = key_searchResults query
       in tryCatch
            (bind (cache_get env cacheKey) (\<lambda>cached.
               if truthy cached \<and> isArray cached then ret cached
               else let localResults = fuzzySearchPreload env query
                    in bind (tryCatch (searchFromApi env query cacheKey localResults)
                               (\<lambda>error. ret None))
                         (\<lambda>returned.
                           case returned of
                             Some v \<Rightarrow> ret v
                           | None \<Rightarrow>
                               bind (cache_set env cacheKey (Arr (map SpeciesV localResults))
                                       ttl_search)
                                 (\<lambda>_. ret (Arr (map SpeciesV localResults))))))
            (\<lambda>error. ret (Arr (map SpeciesV (fuzzySearchPreload env query)))))"



section \<open>Notions used to state the properties\<close>

subsection \<open>The store\<close>

text \<open>A store that never fails.\<close>

definition reliable :: "env \<Rightarrow> bool" where
  "reliable env \<longleftrightarrow> (\<forall>i. storeFault env i = None)"

text \<open>
  A store failure \<open>e\<close> was raised by one of the store operations performed between
  the states \<open>s\<close> and \<open>s'\<close>.
\<close>

definition raisedDuring :: "env \<Rightarrow> world \<Rightarrow> world \<Rightarrow> thrown \<Rightarrow> bool" where
  "raisedDuring env s s' e \<longleftrightarrow>
     (\<exists>i. idbCalls s \<le> i \<and> i < idbCalls s' \<and> storeFault env i = Some e)"

text \<open>
  A computation surfaces store failures when it stops at the first store operation
  that fails and raises that very failure.
\<close>

definition surfaces :: "env \<Rightarrow> 'a io \<Rightarrow> bool" where
  "surfaces env m \<longleftrightarrow>
     (\<forall>s r s'. m s = (r, s') \<longrightarrow>
        idbCalls s \<le> idbCalls s' \<and>
        (case r of
           Inl e \<Rightarrow> idbCalls s < idbCalls s' \<and> storeFault env (idbCalls s' - 1) = Some e \<and>
                    (\<forall>i. idbCalls s \<le> i \<and> i < idbCalls s' - 1 \<longrightarrow> storeFault env i = None)
         | Inr x \<Rightarrow> (\<forall>i. idbCalls s \<le> i \<and> i < idbCalls s' \<longrightarrow> storeFault env i = None)))"

text \<open>
  The namespaced keys of the store, and whether the entry under a key is expired or
  live at time \<open>t\<close> (a key with no entry is neither).
\<close>

definition cacheKeys :: "world \<Rightarrow> string list" where
  "cacheKeys s = filter isCacheKey (map fst (idb s))"

definition expiredAt :: "int \<Rightarrow> (string \<times> CacheEntry) list \<Rightarrow> string \<Rightarrow> bool" where
  "expiredAt t db k = (case map_of db k of Some e \<Rightarrow> t > expiresAt e | None \<Rightarrow> False)"

definition liveAt :: "int \<Rightarrow> (string \<times> CacheEntry) list \<Rightarrow> string \<Rightarrow> bool" where
  "liveAt t db k = (case map_of db k of Some e \<Rightarrow> t \<le> expiresAt e | None \<Rightarrow> False)"

definition liveKeys :: "world \<Rightarrow> string list" where
  "liveKeys s = filter (liveAt (now s) (idb s)) (cacheKeys s)"

definition lastAccessOf :: "(string \<times> CacheEntry) list \<Rightarrow> string \<Rightarrow> int" where
  "lastAccessOf db k = (case map_of db k of Some e \<Rightarrow> lastAccess e | None \<Rightarrow> 0)"

definition rowOf :: "(string \<times> CacheEntry) list \<Rightarrow> string \<Rightarrow> LRURow" where
  "rowOf db k = (case map_of db k of
       Some e \<Rightarrow> \<lparr>key = k, rowLastAccess = lastAccess e, rowExpiresAt = expiresAt e\<rparr>
     | None \<Rightarrow> \<lparr>key = k, rowLastAccess = 0, rowExpiresAt = 0\<rparr>)"

text \<open>The keys the eviction pass deletes for being least recently used.\<close>

definition evicted :: "int \<Rightarrow> world \<Rightarrow> string list" where
  "evicted m s = map key (take (nat (int (length (liveKeys s)) - m))
                      (sort_key rowLastAccess (map (rowOf (idb s)) (liveKeys s))))"

subsection \<open>The repository\<close>

text \<open>
  The \<open>If-None-Match\<close> header a conditional fetch of \<open>url\<close> sends from the state
  \<open>s\<close>: the validator cached for the URL when it is present, not expired and truthy.
\<close>

definition ifNoneMatch :: "world \<Rightarrow> string \<Rightarrow> jsval option" where
  "ifNoneMatch s url =
     (case map_of (idb s) (getCacheKey (key_etag url)) of
        None \<Rightarrow> None
      | Some e \<Rightarrow> if now s > expiresAt e then None
                  else if truthy (val e) then Some (val e) else None)"




subsection \<open>Observing a run of the backoff utility\<close>





subsection \<open>Concrete environments and stores\<close>

definition seaOtter :: Species where
  "seaOtter = \<lparr>speciesId = ''sea-otter'', name = ''Sea Otter'', endangerment = EN,
     bullets = \<lparr>habitat = ''Kelp forests and coastal waters'',
                diet = ''Sea urchins, crabs, mollusks'',
                personality = ''Playful and social''\<rparr>,
     photoURLs = [''/images/sea-otter.jpg'']\<rparr>"

definition offline :: "nat \<Rightarrow> string \<Rightarrow> jsval option \<Rightarrow> thrown + HttpResponse" where
  "offline n url h = Inl (Error ''Network error'')"

definition noFault :: "nat \<Rightarrow> thrown option" where
  "noFault i = None"

definition firstOpFails :: "nat \<Rightarrow> thrown option" where
  "firstOpFails i = (if i = 0 then Some (Error ''IndexedDB error'') else None)"

definition plainEncode :: "string \<Rightarrow> thrown + string" where
  "plainEncode str = Inr str"

definition showTag :: "jsval \<Rightarrow> string" where
  "showTag v = (case v of Null \<Rightarrow> ''null'' | Undefined \<Rightarrow> ''undefined'' | Str str \<Rightarrow> str
                | _ \<Rightarrow> ''[object Object]'')"

definition demoEnv :: env where
  "demoEnv = \<lparr>storeFault = noFault, network = offline, coreSpecies = [seaOtter],
              encodeURIComponent = plainEncode, js_String = showTag\<rparr>"

definition faultyEnv :: env where
  "faultyEnv = demoEnv\<lparr>storeFault := firstOpFails\<rparr>"

definition entryAt :: "string \<Rightarrow> int \<Rightarrow> int \<Rightarrow> string \<times> CacheEntry" where
  "entryAt k expires accessed =
     (getCacheKey k, \<lparr>val = Str k, expiresAt = expires, lastAccess = accessed\<rparr>)"

definition emptyWorld :: world where
  "emptyWorld = \<lparr>idb = [], idbCalls = 0, fetchCalls = 0, now = 1000, timers = []\<rparr>"

definition staleWorld :: world where
  "staleWorld = emptyWorld\<lparr>idb := [entryAt ''old'' 1050 1000], now := 1100\<rparr>"

definition fullWorld :: world where
  "fullWorld = emptyWorld\<lparr>idb := [entryAt ''key1'' 61000 1040, entryAt ''gone'' 1050 1000,
       entryAt ''key2'' 61010 1010, entryAt ''key3'' 61020 1020,
       (''other-app'', snd (entryAt ''x'' 0 0)), entryAt ''key4'' 61030 1030], now := 1100\<rparr>"












section \<open>Properties of the cache engine\<close>

subsection \<open>The operations on a store that does not fail\<close>

lemma idbGet_ok:
  "reliable env \<Longrightarrow> idbGet env k s = (Inr (map_of (idb s) k), s\<lparr>idbCalls := Suc (idbCalls s)\<rparr>)"
  by (simp add: idbGet_def storeOp_def reliable_def)

lemma idbSet_ok:
  "reliable env \<Longrightarrow> idbSet env k e s =
     (Inr (), s\<lparr>idbCalls := Suc (idbCalls s), idb := AList.update k e (idb s)\<rparr>)"
  by (simp add: idbSet_def storeOp_def reliable_def)

lemma idbDel_ok:
  "reliable env \<Longrightarrow> idbDel env k s =
     (Inr (), s\<lparr>idbCalls := Suc (idbCalls s), idb := AList.delete k (idb s)\<rparr>)"
  by (simp add: idbDel_def storeOp_def reliable_def)

lemma idbKeys_ok:
  "reliable env \<Longrightarrow> idbKeys env s = (Inr (map fst (idb s)), s\<lparr>idbCalls := Suc (idbCalls s)\<rparr>)"
  by (simp add: idbKeys_def storeOp_def reliable_def)

lemma cache_set_ok:
  "reliable env \<Longrightarrow> cache_set env k v ttl s =
     (Inr (), s\<lparr>idbCalls := Suc (idbCalls s),
                 idb := AList.update (getCacheKey k)
                          \<lparr>val = v, expiresAt = now s + ttl, lastAccess = now s\<rparr> (idb s)\<rparr>)"
  by (simp add: cache_set_def tryCatch_def idbSet_ok)

lemma cache_get_ok:
  "reliable env \<Longrightarrow> cache_get env k s =
     (case map_of (idb s) (getCacheKey k) of
        None \<Rightarrow> (Inr Undefined, s\<lparr>idbCalls := Suc (idbCalls s)\<rparr>)
      | Some e \<Rightarrow>
          if now s > expiresAt e
          then (Inr Undefined, s\<lparr>idbCalls := Suc (Suc (idbCalls s)),
                                   idb := AList.delete (getCacheKey k) (idb s)\<rparr>)
          else (Inr (val e), s\<lparr>idbCalls := Suc (Suc (idbCalls s)),
                                idb := AList.update (getCacheKey k) (e\<lparr>lastAccess := now s\<rparr>) (idb s)\<rparr>))"
  by (simp add: cache_get_def tryCatch_def bind_def ret_def idbGet_ok idbSet_ok idbDel_ok
           split: option.splits)

lemma reliable_demoEnv: "reliable demoEnv"
  by (simp add: reliable_def demoEnv_def noFault_def)

lemma isCacheKey_getCacheKey: "isCacheKey (getCacheKey k)"
  by (simp add: isCacheKey_def getCacheKey_def)

subsection \<open>Round trip\<close>

text \<open>
  C2.  On a store that does not fail, \<open>set(k, v, ttl)\<close> with \<open>ttl > 0\<close> followed by
  \<open>get(k)\<close> at a time \<open>t1\<close> with \<open>t1 - t0 < ttl\<close>, where \<open>t0\<close> is the time of the
  \<open>set\<close>, returns \<open>v\<close>, whatever the key, the value and the earlier contents of the
  store.
\<close>

theorem cache_set_get_roundtrip:
  assumes "reliable env" and "0 < ttl" and "t1 - now s < ttl"
  shows "fst (cache_set env k v ttl s) = Inr () \<and>
         fst (cache_get env k ((snd (cache_set env k v ttl s))\<lparr>now := t1\<rparr>)) = Inr v"
  using assms by (simp add: cache_set_ok cache_get_ok update_conv')

theorem cache_set_get_roundtrip_witness:
  "reliable demoEnv \<and> (0::int) < 60000 \<and> 1500 - now emptyWorld < 60000 \<and>
   fst (cache_set demoEnv ''test-key'' (Str ''test-value'') 60000 emptyWorld) = Inr () \<and>
   fst (cache_get demoEnv ''test-key''
          ((snd (cache_set demoEnv ''test-key'' (Str ''test-value'') 60000 emptyWorld))
             \<lparr>now := 1500\<rparr>)) = Inr (Str ''test-value'')"
proof -
  have h: "reliable demoEnv" "(0::int) < 60000" "1500 - now emptyWorld < 60000"
    by (simp_all add: reliable_demoEnv emptyWorld_def)
  from cache_set_get_roundtrip [OF h] h show ?thesis by blast
qed

subsection \<open>Expiry on read\<close>

lemma countEntries_ok:
  "reliable env \<Longrightarrow> countEntries env t ks ex va s =
     (Inr (ex + length (filter (expiredAt t (idb s)) ks),
           va + length (filter (liveAt t (idb s)) ks)),
      s\<lparr>idbCalls := idbCalls s + length ks\<rparr>)"
proof (induction ks arbitrary: ex va s)
  case Nil
  then show ?case by (simp add: ret_def)
next
  case (Cons k ks)
  then show ?case
    by (simp add: bind_def idbGet_ok expiredAt_def liveAt_def split: option.splits)
qed

lemma getStats_ok:
  "reliable env \<Longrightarrow> getStats env s =
     (Inr \<lparr>totalEntries = length (cacheKeys s),
           expiredEntries = length (filter (expiredAt (now s) (idb s)) (cacheKeys s)),
           validEntries = length (filter (liveAt (now s) (idb s)) (cacheKeys s))\<rparr>,
      s\<lparr>idbCalls := Suc (idbCalls s) + length (cacheKeys s)\<rparr>)"
  by (simp add: getStats_def tryCatch_def bind_def idbKeys_ok countEntries_ok ret_def
        cacheKeys_def Let_def)

lemma length_filter_removeAll_in:
  "distinct xs \<Longrightarrow> x \<in> set xs \<Longrightarrow> P x \<Longrightarrow>
     Suc (length (filter P (removeAll x xs))) = length (filter P xs)"
  by (induction xs) (auto simp: distinct_removeAll)

lemma length_filter_removeAll_out:
  "\<not> P x \<Longrightarrow> length (filter P (removeAll x xs)) = length (filter P xs)"
  by (induction xs) auto

lemma filter_removeAll_comm: "filter P (removeAll x xs) = removeAll x (filter P xs)"
  by (induction xs) auto

lemma filter_delete_cong:
  "filter (expiredAt t (AList.delete c db)) (removeAll c ks) = filter (expiredAt t db) (removeAll c ks)"
  "filter (liveAt t (AList.delete c db)) (removeAll c ks) = filter (liveAt t db) (removeAll c ks)"
  by (rule filter_cong; simp add: expiredAt_def liveAt_def)+

text \<open>
  C3.  On a store that does not fail, \<open>get(key)\<close> on a key whose entry has its expiry
  timestamp before the current time returns \<open>undefined\<close> and deletes the entry: the
  key has no entry afterwards, and \<open>getStats\<close> counts one entry less in total and one
  expired entry less than before, with the same number of valid entries.
\<close>

theorem cache_get_expired:
  assumes rel: "reliable env"
    and dist: "distinct (map fst (idb s))"
    and ent: "map_of (idb s) (getCacheKey k) = Some e"
    and exp: "expiresAt e < now s"
  shows "fst (cache_get env k s) = Inr Undefined \<and>
         map_of (idb (snd (cache_get env k s))) (getCacheKey k) = None \<and>
         (\<exists>st st'. fst (getStats env s) = Inr st \<and>
                   fst (getStats env (snd (cache_get env k s))) = Inr st' \<and>
                   Suc (totalEntries st') = totalEntries st \<and>
                   Suc (expiredEntries st') = expiredEntries st \<and>
                   validEntries st' = validEntries st)"
proof -
  let ?c = "getCacheKey k"
  define s' where "s' = s\<lparr>idbCalls := Suc (Suc (idbCalls s)), idb := AList.delete ?c (idb s)\<rparr>"
  have res: "cache_get env k s = (Inr Undefined, s')"
    using rel ent exp by (simp add: cache_get_ok s'_def)
  have db: "idb s' = AList.delete ?c (idb s)" and t: "now s' = now s"
    by (simp_all add: s'_def)
  have inkeys: "?c \<in> set (map fst (idb s))"
    using ent by (metis map_of_eq_None_iff option.distinct(1) set_map)
  have ck: "cacheKeys s' = removeAll ?c (cacheKeys s)"
    by (simp add: db cacheKeys_def delete_keys filter_removeAll_comm)
  have dck: "distinct (cacheKeys s)" and ink: "?c \<in> set (cacheKeys s)"
    using dist inkeys by (simp_all add: cacheKeys_def isCacheKey_getCacheKey)
  have ex: "expiredAt (now s) (idb s) ?c" and nl: "\<not> liveAt (now s) (idb s) ?c"
    using ent exp by (simp_all add: expiredAt_def liveAt_def)
  have tot: "Suc (length (cacheKeys s')) = length (cacheKeys s)"
    using length_filter_removeAll_in [OF dck ink, of "\<lambda>_. True"] by (simp add: ck)
  have nexp: "Suc (length (filter (expiredAt (now s') (idb s')) (cacheKeys s')))
        = length (filter (expiredAt (now s) (idb s)) (cacheKeys s))"
    using length_filter_removeAll_in [of "cacheKeys s" ?c "expiredAt (now s) (idb s)", OF dck ink ex]
    by (simp add: ck db t filter_delete_cong)
  have nval: "length (filter (liveAt (now s') (idb s')) (cacheKeys s'))
        = length (filter (liveAt (now s) (idb s)) (cacheKeys s))"
    using length_filter_removeAll_out [of "liveAt (now s) (idb s)" ?c "cacheKeys s", OF nl]
    by (simp add: ck db t filter_delete_cong)
  have gone: "map_of (idb s') ?c = None"
    by (simp add: db delete_conv')
  show ?thesis
    using tot nexp nval gone by (simp add: getStats_ok [OF rel] res)
qed

theorem cache_get_expired_witness:
  "reliable demoEnv \<and> distinct (map fst (idb staleWorld)) \<and>
   map_of (idb staleWorld) (getCacheKey ''old'') = Some (snd (entryAt ''old'' 1050 1000)) \<and>
   expiresAt (snd (entryAt ''old'' 1050 1000)) < now staleWorld \<and>
   fst (cache_get demoEnv ''old'' staleWorld) = Inr Undefined \<and>
   map_of (idb (snd (cache_get demoEnv ''old'' staleWorld))) (getCacheKey ''old'') = None \<and>
   (\<exists>st st'. fst (getStats demoEnv staleWorld) = Inr st \<and>
             fst (getStats demoEnv (snd (cache_get demoEnv ''old'' staleWorld))) = Inr st' \<and>
             Suc (totalEntries st') = totalEntries st \<and>
             Suc (expiredEntries st') = expiredEntries st \<and>
             validEntries st' = validEntries st)"
proof -
  have h: "reliable demoEnv" "distinct (map fst (idb staleWorld))"
    "map_of (idb staleWorld) (getCacheKey ''old'') = Some (snd (entryAt ''old'' 1050 1000))"
    "expiresAt (snd (entryAt ''old'' 1050 1000)) < now staleWorld"
    by (simp_all add: reliable_demoEnv staleWorld_def emptyWorld_def entryAt_def)
  from cache_get_expired [OF h] h show ?thesis by blast
qed

subsection \<open>Store failures: absorbed by \<open>get\<close>, raised by \<open>set\<close>\<close>

lemma two_steps: "n \<le> i \<Longrightarrow> i < Suc (Suc n) \<Longrightarrow> i = n \<or> i = Suc n"
  by arith

text \<open>
  C4.  Whatever the store does, \<open>get\<close> returns a value and never raises; when one of
  the store operations it performs fails, it returns \<open>undefined\<close>.  When the store
  operation of \<open>set\<close> fails with \<open>e\<close>, \<open>set\<close> raises \<open>e\<close>.
\<close>

theorem cache_get_absorbs_cache_set_propagates:
  "(\<exists>v. fst (cache_get env k s) = Inr v) \<and>
   (raisedDuring env s (snd (cache_get env k s)) e \<longrightarrow> fst (cache_get env k s) = Inr Undefined) \<and>
   (storeFault env (idbCalls s) = Some e \<longrightarrow> fst (cache_set env k v ttl s) = Inl e)"
proof (intro conjI impI)
  show "\<exists>v. fst (cache_get env k s) = Inr v"
    by (auto simp: cache_get_def tryCatch_def bind_def ret_def idbGet_def idbSet_def idbDel_def
          storeOp_def Let_def split: option.splits)
next
  assume "raisedDuring env s (snd (cache_get env k s)) e"
  then obtain i where i: "idbCalls s \<le> i" "i < idbCalls (snd (cache_get env k s))"
      "storeFault env i = Some e"
    by (auto simp: raisedDuring_def)
  show "fst (cache_get env k s) = Inr Undefined"
  proof (cases "storeFault env (idbCalls s)")
    case (Some e0)
    then show ?thesis
      by (simp add: cache_get_def tryCatch_def bind_def ret_def idbGet_def storeOp_def)
  next
    case None
    note first = None
    show ?thesis
    proof (cases "map_of (idb s) (getCacheKey k)")
      case None
      with first show ?thesis
        by (simp add: cache_get_def tryCatch_def bind_def ret_def idbGet_def storeOp_def)
    next
      case (Some ent)
      show ?thesis
      proof (cases "storeFault env (Suc (idbCalls s))")
        case (Some e1)
        with first \<open>map_of (idb s) (getCacheKey k) = Some ent\<close> show ?thesis
          by (simp add: cache_get_def tryCatch_def bind_def ret_def idbGet_def idbSet_def
                idbDel_def storeOp_def)
      next
        case None
        with first \<open>map_of (idb s) (getCacheKey k) = Some ent\<close>
        have "idbCalls (snd (cache_get env k s)) = Suc (Suc (idbCalls s))"
          by (simp add: cache_get_def tryCatch_def bind_def ret_def idbGet_def idbSet_def
                idbDel_def storeOp_def)
        with i(1,2) have "i = idbCalls s \<or> i = Suc (idbCalls s)"
          by (simp add: two_steps)
        with i(3) first None show ?thesis by auto
      qed
    qed
  qed
next
  assume "storeFault env (idbCalls s) = Some e"
  then show "fst (cache_set env k v ttl s) = Inl e"
    by (simp add: cache_set_def tryCatch_def throw_def idbSet_def storeOp_def)
qed

theorem cache_get_absorbs_cache_set_propagates_witness:
  "raisedDuring faultyEnv emptyWorld (snd (cache_get faultyEnv ''error-key'' emptyWorld))
     (Error ''IndexedDB error'') \<and>
   storeFault faultyEnv (idbCalls emptyWorld) = Some (Error ''IndexedDB error'') \<and>
   fst (cache_get faultyEnv ''error-key'' emptyWorld) = Inr Undefined \<and>
   fst (cache_set faultyEnv ''error-key'' (Str ''value'') 1000 emptyWorld)
     = Inl (Error ''IndexedDB error'')"
proof -
  have calls: "idbCalls (snd (cache_get faultyEnv ''error-key'' emptyWorld)) = 1"
    by (simp add: cache_get_def tryCatch_def bind_def ret_def idbGet_def storeOp_def
          faultyEnv_def demoEnv_def firstOpFails_def emptyWorld_def)
  have z: "idbCalls emptyWorld = 0"
    by (simp add: emptyWorld_def)
  have f: "storeFault faultyEnv (idbCalls emptyWorld) = Some (Error ''IndexedDB error'')"
    by (simp add: faultyEnv_def demoEnv_def firstOpFails_def emptyWorld_def)
  have r: "raisedDuring faultyEnv emptyWorld (snd (cache_get faultyEnv ''error-key'' emptyWorld))
             (Error ''IndexedDB error'')"
    unfolding raisedDuring_def
    by (rule exI [of _ 0]) (use f z in \<open>simp add: calls\<close>)
  from cache_get_absorbs_cache_set_propagates
         [of faultyEnv "''error-key''" emptyWorld "Error ''IndexedDB error''" "Str ''value''" 1000]
       r f
  show ?thesis by blast
qed

subsection \<open>Store failures during eviction and clear\<close>

lemma surfaces_ret: "surfaces env (ret x)"
  by (auto simp: surfaces_def ret_def)

lemma surfaces_storeOp:
  assumes "\<And>s. idbCalls (snd (f s)) = idbCalls s"
  shows "surfaces env (storeOp env f)"
proof -
  have "\<And>s x s''. f s = (x, s'') \<Longrightarrow> idbCalls s'' = idbCalls s"
    using assms by (metis snd_conv)
  then show ?thesis
    unfolding surfaces_def storeOp_def
    by (auto simp: Let_def split: option.splits prod.splits)
       (metis le_antisym less_Suc_eq_le)
qed

lemma surfaces_idb:
  "surfaces env (idbGet env k)" "surfaces env (idbSet env k e)"
  "surfaces env (idbDel env k)" "surfaces env (idbKeys env)"
  by (simp_all add: idbGet_def idbSet_def idbDel_def idbKeys_def surfaces_storeOp)

lemma surfaces_bind:
  assumes m: "surfaces env m" and f: "\<And>x. surfaces env (f x)"
  shows "surfaces env (bind m f)"
  unfolding surfaces_def
proof (intro allI impI)
  fix s r s'
  assume run: "bind m f s = (r, s')"
  obtain r1 s1 where m1: "m s = (r1, s1)" by (cases "m s")
  note M = m [unfolded surfaces_def, rule_format, OF m1]
  show "idbCalls s \<le> idbCalls s' \<and>
        (case r of
           Inl e \<Rightarrow> idbCalls s < idbCalls s' \<and> storeFault env (idbCalls s' - 1) = Some e \<and>
                    (\<forall>i. idbCalls s \<le> i \<and> i < idbCalls s' - 1 \<longrightarrow> storeFault env i = None)
         | Inr x \<Rightarrow> (\<forall>i. idbCalls s \<le> i \<and> i < idbCalls s' \<longrightarrow> storeFault env i = None))"
  proof (cases r1)
    case (Inl e)
    with run m1 M show ?thesis by (auto simp: bind_def)
  next
    case (Inr x)
    with run m1 have f1: "f x s1 = (r, s')" by (simp add: bind_def)
    note F = f [unfolded surfaces_def, rule_format, OF f1]
    from M Inr have M': "idbCalls s \<le> idbCalls s1"
      "\<And>i. idbCalls s \<le> i \<Longrightarrow> i < idbCalls s1 \<Longrightarrow> storeFault env i = None"
      by simp_all
    show ?thesis
    proof (cases r)
      case (Inl e)
      with F have F': "idbCalls s1 < idbCalls s'" "storeFault env (idbCalls s' - 1) = Some e"
        "\<And>i. idbCalls s1 \<le> i \<Longrightarrow> i < idbCalls s' - 1 \<Longrightarrow> storeFault env i = None"
        by simp_all
      have "storeFault env i = None" if "idbCalls s \<le> i" "i < idbCalls s' - 1" for i
        using that M'(2) [of i] F'(3) [of i] by (cases "i < idbCalls s1") simp_all
      with M'(1) F'(1,2) Inl show ?thesis by simp
    next
      case (Inr y)
      with F have F': "idbCalls s1 \<le> idbCalls s'"
        "\<And>i. idbCalls s1 \<le> i \<Longrightarrow> i < idbCalls s' \<Longrightarrow> storeFault env i = None"
        by simp_all
      have "storeFault env i = None" if "idbCalls s \<le> i" "i < idbCalls s'" for i
        using that M'(2) [of i] F'(2) [of i] by (cases "i < idbCalls s1") simp_all
      with M'(1) F'(1) Inr show ?thesis by simp
    qed
  qed
qed

lemma surfaces_rethrow: "surfaces env m \<Longrightarrow> surfaces env (tryCatch m (\<lambda>error. throw error))"
  unfolding surfaces_def tryCatch_def throw_def
  by (auto split: prod.splits sum.splits)

lemma surfaces_if:
  "surfaces env a \<Longrightarrow> surfaces env b \<Longrightarrow> surfaces env (\<lambda>s. if P s then a s else b s)"
  unfolding surfaces_def by (auto split: if_splits)

lemma surfaces_delAll: "surfaces env (delAll env ks)"
  by (induction ks) (simp_all add: surfaces_ret surfaces_bind surfaces_idb)

lemma surfaces_collectLive: "surfaces env (collectLive env ks acc)"
proof (induction ks arbitrary: acc)
  case Nil
  show ?case by (simp add: surfaces_ret)
next
  case (Cons k ks)
  show ?case
    unfolding collectLive.simps
    apply (rule surfaces_bind [OF surfaces_idb(1)])
    subgoal for entry
      apply (cases entry)
       apply (simp add: Cons)
      apply simp
      apply (rule surfaces_if)
       apply (simp_all add: Cons surfaces_bind surfaces_idb)
      done
    done
qed

lemma surfaces_evict: "surfaces env (evictLRUIfNeeded env m)"
  unfolding evictLRUIfNeeded_def
  by (intro surfaces_rethrow surfaces_bind surfaces_idb)
     (simp add: Let_def surfaces_ret surfaces_bind surfaces_collectLive surfaces_delAll)

lemma surfaces_clear: "surfaces env (cache_clear env)"
  unfolding cache_clear_def
  by (intro surfaces_rethrow surfaces_bind surfaces_idb surfaces_delAll)

lemma surfaces_raised:
  assumes "surfaces env m" and "raisedDuring env s (snd (m s)) e"
  shows "fst (m s) = Inl e"
proof -
  obtain r s' where run: "m s = (r, s')" by (cases "m s")
  note S = assms(1) [unfolded surfaces_def, rule_format, OF run]
  from assms(2) run obtain i where i: "idbCalls s \<le> i" "i < idbCalls s'" "storeFault env i = Some e"
    by (auto simp: raisedDuring_def)
  show ?thesis
  proof (cases r)
    case (Inl e')
    with S have "storeFault env (idbCalls s' - 1) = Some e'"
      and none: "\<And>j. idbCalls s \<le> j \<Longrightarrow> j < idbCalls s' - 1 \<Longrightarrow> storeFault env j = None"
      by simp_all
    with i have "i = idbCalls s' - 1"
      by (metis Suc_pred' less_Suc_eq less_nat_zero_code not_gr_zero option.distinct(1))
    with i \<open>storeFault env (idbCalls s' - 1) = Some e'\<close> have "e' = e" by simp
    with Inl run show ?thesis by simp
  next
    case (Inr x)
    with S i show ?thesis by auto
  qed
qed

text \<open>
  C10.  When a store operation performed by \<open>evictLRUIfNeeded\<close> or by \<open>clear\<close> fails
  with \<open>e\<close>, the call raises \<open>e\<close> to its caller.
\<close>

theorem maintenance_propagates_store_failure:
  "(raisedDuring env s (snd (evictLRUIfNeeded env m s)) e \<longrightarrow>
      fst (evictLRUIfNeeded env m s) = Inl e) \<and>
   (raisedDuring env s (snd (cache_clear env s)) e \<longrightarrow> fst (cache_clear env s) = Inl e)"
  using surfaces_raised [OF surfaces_evict] surfaces_raised [OF surfaces_clear] by blast

theorem maintenance_propagates_store_failure_witness:
  "raisedDuring faultyEnv fullWorld (snd (evictLRUIfNeeded faultyEnv 2 fullWorld))
     (Error ''IndexedDB error'') \<and>
   raisedDuring faultyEnv fullWorld (snd (cache_clear faultyEnv fullWorld))
     (Error ''IndexedDB error'') \<and>
   fst (evictLRUIfNeeded faultyEnv 2 fullWorld) = Inl (Error ''IndexedDB error'') \<and>
   fst (cache_clear faultyEnv fullWorld) = Inl (Error ''IndexedDB error'')"
proof -
  have z: "idbCalls fullWorld = 0"
    by (simp add: fullWorld_def emptyWorld_def)
  have f: "storeFault faultyEnv 0 = Some (Error ''IndexedDB error'')"
    by (simp add: faultyEnv_def demoEnv_def firstOpFails_def)
  have c1: "idbCalls (snd (evictLRUIfNeeded faultyEnv 2 fullWorld)) = 1"
    using f by (simp add: evictLRUIfNeeded_def tryCatch_def bind_def throw_def idbKeys_def
                  storeOp_def z)
  have c2: "idbCalls (snd (cache_clear faultyEnv fullWorld)) = 1"
    using f by (simp add: cache_clear_def tryCatch_def bind_def throw_def idbKeys_def
                  storeOp_def z)
  have r1: "raisedDuring faultyEnv fullWorld (snd (evictLRUIfNeeded faultyEnv 2 fullWorld))
              (Error ''IndexedDB error'')"
    unfolding raisedDuring_def by (rule exI [of _ 0]) (simp add: f z c1)
  have r2: "raisedDuring faultyEnv fullWorld (snd (cache_clear faultyEnv fullWorld))
              (Error ''IndexedDB error'')"
    unfolding raisedDuring_def by (rule exI [of _ 0]) (simp add: f z c2)
  from maintenance_propagates_store_failure
         [of faultyEnv fullWorld 2 "Error ''IndexedDB error''"] r1 r2
  show ?thesis by blast
qed

subsection \<open>Eviction of the least recently used entries\<close>

lemma delete_as_filter: "AList.delete k db = filter (\<lambda>p. fst p \<noteq> k) db"
  by (induction db) auto

lemma collectLive_ok:
  assumes "reliable env" and "distinct ks"
  shows "collectLive env ks acc s =
     (Inr (acc @ map (rowOf (idb s)) (filter (liveAt (now s) (idb s)) ks)),
      s\<lparr>idbCalls := idbCalls s + length ks + length (filter (expiredAt (now s) (idb s)) ks),
         idb := filter (\<lambda>p. fst p \<notin> set (filter (expiredAt (now s) (idb s)) ks)) (idb s)\<rparr>)"
  using assms(2)
proof (induction ks arbitrary: acc s)
  case Nil
  show ?case by (simp add: ret_def)
next
  case (Cons k ks)
  then have dks: "distinct ks" and kn: "k \<notin> set ks" by simp_all
  note rel = assms(1)
  show ?case
  proof (cases "map_of (idb s) k")
    case None
    then have "\<not> liveAt (now s) (idb s) k" "\<not> expiredAt (now s) (idb s) k"
      by (simp_all add: liveAt_def expiredAt_def)
    then show ?thesis
      using None by (simp add: bind_def idbGet_ok [OF rel] Cons.IH [OF dks])
  next
    case (Some e)
    show ?thesis
    proof (cases "now s \<le> expiresAt e")
      case True
      then have "liveAt (now s) (idb s) k" "\<not> expiredAt (now s) (idb s) k"
        using Some by (simp_all add: liveAt_def expiredAt_def)
      then show ?thesis
        using Some True
        by (simp add: bind_def idbGet_ok [OF rel] Cons.IH [OF dks] rowOf_def)
    next
      case False
      then have ex: "\<not> liveAt (now s) (idb s) k" "expiredAt (now s) (idb s) k"
        using Some by (simp_all add: liveAt_def expiredAt_def)
      let ?db' = "AList.delete k (idb s)"
      have same: "\<And>k'. k' \<in> set ks \<Longrightarrow> map_of ?db' k' = map_of (idb s) k'"
        using kn by (metis map_of_delete)
      have f1: "filter (liveAt (now s) ?db') ks = filter (liveAt (now s) (idb s)) ks"
        by (rule filter_cong) (simp_all add: liveAt_def same)
      have f2: "filter (expiredAt (now s) ?db') ks = filter (expiredAt (now s) (idb s)) ks"
        by (rule filter_cong) (simp_all add: expiredAt_def same)
      have f3: "map (rowOf ?db') (filter (liveAt (now s) (idb s)) ks)
                 = map (rowOf (idb s)) (filter (liveAt (now s) (idb s)) ks)"
        by (rule map_cong) (simp_all add: rowOf_def same)
      have f4: "filter (\<lambda>p. fst p \<notin> set (filter (expiredAt (now s) (idb s)) ks)) ?db'
                 = filter (\<lambda>p. fst p \<notin> set (filter (expiredAt (now s) (idb s)) (k # ks))) (idb s)"
        using ex by (simp add: delete_as_filter conj_commute)
      have step: "collectLive env (k # ks) acc s =
                  collectLive env ks acc (s\<lparr>idbCalls := Suc (Suc (idbCalls s)), idb := ?db'\<rparr>)"
        using Some False by (simp add: bind_def idbGet_ok [OF rel] idbDel_ok [OF rel])
      show ?thesis
        unfolding step Cons.IH [OF dks]
        using ex by (simp add: f1 f2 f3 f4 del: set_filter)
    qed
  qed
qed

lemma delAll_ok:
  "reliable env \<Longrightarrow> delAll env ks s =
     (Inr (), s\<lparr>idbCalls := idbCalls s + length ks,
                 idb := filter (\<lambda>p. fst p \<notin> set ks) (idb s)\<rparr>)"
proof (induction ks arbitrary: s)
  case Nil
  show ?case by (simp add: ret_def)
next
  case (Cons k ks)
  then show ?case
    by (simp add: bind_def idbDel_ok delete_as_filter conj_commute)
qed

lemma evictLRUIfNeeded_ok:
  assumes rel: "reliable env" and dist: "distinct (map fst (idb s))"
  shows "fst (evictLRUIfNeeded env m s) = Inr () \<and>
         idb (snd (evictLRUIfNeeded env m s)) =
           (if int (length (cacheKeys s)) \<le> m then idb s
            else filter (\<lambda>p. fst p \<notin> set (evicted m s))
                   (filter (\<lambda>p. fst p \<notin> set (filter (expiredAt (now s) (idb s)) (cacheKeys s)))
                      (idb s)))"
proof -
  have dck: "distinct (filter isCacheKey (map fst (idb s)))"
    using dist by simp
  show ?thesis
    unfolding evictLRUIfNeeded_def
    by (simp add: tryCatch_def bind_def idbKeys_ok [OF rel] collectLive_ok [OF rel dck]
          delAll_ok [OF rel] ret_def Let_def evicted_def liveKeys_def cacheKeys_def)
qed

lemma key_rowOf [simp]: "key (rowOf db k) = k"
  by (simp add: rowOf_def split: option.splits)

lemma rowLastAccess_rowOf [simp]: "rowLastAccess (rowOf db k) = lastAccessOf db k"
  by (simp add: rowOf_def lastAccessOf_def split: option.splits)

lemma sorted_take_drop_le:
  assumes "sorted (map f ys)" and "a \<in> set (take n ys)" and "b \<in> set (drop n ys)"
  shows "f a \<le> f b"
proof -
  have "sorted (map f (take n ys) @ map f (drop n ys))"
    using assms(1) by (metis append_take_drop_id map_append)
  then show ?thesis
    using assms(2,3) by (auto simp: sorted_append)
qed

lemma distinct_liveKeys: "distinct (map fst (idb s)) \<Longrightarrow> distinct (liveKeys s)"
  by (simp add: liveKeys_def cacheKeys_def)

lemma evicted_subset: "set (evicted m s) \<subseteq> set (liveKeys s)"
proof
  fix k assume "k \<in> set (evicted m s)"
  then obtain r where r: "r \<in> set (sort_key rowLastAccess (map (rowOf (idb s)) (liveKeys s)))"
      and k: "k = key r"
    unfolding evicted_def by (auto dest: in_set_takeD)
  then show "k \<in> set (liveKeys s)" by auto
qed

lemma distinct_evicted:
  assumes "distinct (map fst (idb s))"
  shows "distinct (evicted m s)"
proof -
  let ?rows = "map (rowOf (idb s)) (liveKeys s)"
  have mk: "map key ?rows = liveKeys s" by (simp add: comp_def)
  have "distinct (map key ?rows)"
    using distinct_liveKeys [OF assms] by (simp only: mk)
  then have "distinct ?rows" and "inj_on key (set ?rows)"
    by (simp_all only: distinct_map)
  then have "distinct (map key (sort_key rowLastAccess ?rows))"
    by (simp add: distinct_map)
  then show ?thesis
    unfolding evicted_def by (simp only: take_map [symmetric] distinct_take)
qed

lemma length_evicted:
  "length (evicted m s) =
     (if m < int (length (liveKeys s)) then length (liveKeys s) - nat m else 0)"
  by (auto simp: evicted_def)

lemma evicted_oldest:
  assumes a: "a \<in> set (evicted m s)" and b: "b \<in> set (liveKeys s)" and nb: "b \<notin> set (evicted m s)"
  shows "lastAccessOf (idb s) a \<le> lastAccessOf (idb s) b"
proof -
  let ?rows = "map (rowOf (idb s)) (liveKeys s)"
  let ?sorted = "sort_key rowLastAccess ?rows"
  let ?n = "nat (int (length (liveKeys s)) - m)"
  from a obtain ra where ra: "ra \<in> set (take ?n ?sorted)" and ka: "a = key ra"
    unfolding evicted_def by auto
  from ra have "ra \<in> set ?rows" by (auto dest: in_set_takeD)
  then obtain a' where "ra = rowOf (idb s) a'" by auto
  with ka have ra_eq: "ra = rowOf (idb s) a" by simp
  let ?rb = "rowOf (idb s) b"
  have "?rb \<in> set ?sorted" using b by simp
  moreover have "?rb \<notin> set (take ?n ?sorted)"
  proof
    assume "?rb \<in> set (take ?n ?sorted)"
    then have "key ?rb \<in> set (evicted m s)" unfolding evicted_def by (simp only: set_map) blast
    with nb show False by simp
  qed
  ultimately have "?rb \<in> set (drop ?n ?sorted)"
    by (metis Un_iff append_take_drop_id set_append)
  from sorted_take_drop_le [OF _ ra this, of rowLastAccess]
  have "rowLastAccess ra \<le> rowLastAccess ?rb" by simp
  then show ?thesis by (simp add: ra_eq)
qed

text \<open>
  C1, as the code has it.  On a store that does not fail and holds each key once,
  \<open>evictLRUIfNeeded(maxEntries)\<close> returns normally and
  \<^item> changes nothing when the number of namespaced keys, expired ones included, is
    at most \<open>maxEntries\<close> (expired entries are then left in the store);
  \<^item> otherwise deletes every namespaced entry whose expiry timestamp is before the
    current time, and of the live entries deletes a set \<open>ev\<close> of
    \<open>liveCount - maxEntries\<close> keys (none when \<open>liveCount \<le> maxEntries\<close>, all of
    them when \<open>maxEntries\<close> is negative) such that no deleted entry was accessed
    later than a live entry that is kept; every other entry of the store is untouched.
\<close>

theorem evictLRUIfNeeded_cleanup_and_eviction:
  assumes rel: "reliable env" and dist: "distinct (map fst (idb s))"
  shows "fst (evictLRUIfNeeded env maxEntries s) = Inr () \<and>
         (int (length (cacheKeys s)) \<le> maxEntries \<longrightarrow> idb (snd (evictLRUIfNeeded env maxEntries s)) = idb s) \<and>
         (maxEntries < int (length (cacheKeys s)) \<longrightarrow>
            (\<exists>ev. idb (snd (evictLRUIfNeeded env maxEntries s)) =
                    filter (\<lambda>p. \<not> (isCacheKey (fst p) \<and> expiredAt (now s) (idb s) (fst p)) \<and>
                                fst p \<notin> set ev) (idb s) \<and>
                  set ev \<subseteq> set (liveKeys s) \<and> distinct ev \<and>
                  length ev = (if maxEntries < int (length (liveKeys s))
                               then length (liveKeys s) - nat maxEntries else 0) \<and>
                  (\<forall>a \<in> set ev. \<forall>b \<in> set (liveKeys s) - set ev.
                      lastAccessOf (idb s) a \<le> lastAccessOf (idb s) b)))"
proof -
  note ok = evictLRUIfNeeded_ok [OF rel dist, of maxEntries]
  have shape: "filter (\<lambda>p. fst p \<notin> set (evicted maxEntries s))
          (filter (\<lambda>p. fst p \<notin> set (filter (expiredAt (now s) (idb s)) (cacheKeys s))) (idb s))
        = filter (\<lambda>p. \<not> (isCacheKey (fst p) \<and> expiredAt (now s) (idb s) (fst p)) \<and>
                       fst p \<notin> set (evicted maxEntries s)) (idb s)"
    unfolding filter_filter
    by (rule filter_cong) (auto simp: cacheKeys_def)
  have "maxEntries < int (length (cacheKeys s)) \<Longrightarrow>
        idb (snd (evictLRUIfNeeded env maxEntries s)) =
          filter (\<lambda>p. \<not> (isCacheKey (fst p) \<and> expiredAt (now s) (idb s) (fst p)) \<and>
                       fst p \<notin> set (evicted maxEntries s)) (idb s)"
    using ok shape by simp
  moreover have "\<forall>a \<in> set (evicted maxEntries s). \<forall>b \<in> set (liveKeys s) - set (evicted maxEntries s).
                    lastAccessOf (idb s) a \<le> lastAccessOf (idb s) b"
    using evicted_oldest by blast
  ultimately show ?thesis
    using ok evicted_subset [of maxEntries s] distinct_evicted [OF dist, of maxEntries] length_evicted [of maxEntries s]
    by (intro conjI impI) (simp, simp, blast)
qed

lemma cacheKeys_fullWorld:
  "cacheKeys fullWorld = map getCacheKey [''key1'', ''gone'', ''key2'', ''key3'', ''key4'']"
  by (simp add: cacheKeys_def fullWorld_def emptyWorld_def entryAt_def isCacheKey_def
        getCacheKey_def CACHE_PREFIX_def)

theorem evictLRUIfNeeded_cleanup_and_eviction_witness:
  "reliable demoEnv \<and> distinct (map fst (idb fullWorld)) \<and>
   int (length (cacheKeys fullWorld)) \<le> 5 \<and>
   idb (snd (evictLRUIfNeeded demoEnv 5 fullWorld)) = idb fullWorld \<and>
   2 < int (length (cacheKeys fullWorld)) \<and>
   (\<exists>ev. idb (snd (evictLRUIfNeeded demoEnv 2 fullWorld)) =
            filter (\<lambda>p. \<not> (isCacheKey (fst p) \<and> expiredAt (now fullWorld) (idb fullWorld) (fst p)) \<and>
                        fst p \<notin> set ev) (idb fullWorld) \<and>
          set ev \<subseteq> set (liveKeys fullWorld) \<and> distinct ev \<and>
          length ev = (if 2 < int (length (liveKeys fullWorld))
                       then length (liveKeys fullWorld) - nat 2 else 0) \<and>
          (\<forall>a \<in> set ev. \<forall>b \<in> set (liveKeys fullWorld) - set ev.
              lastAccessOf (idb fullWorld) a \<le> lastAccessOf (idb fullWorld) b)) \<and>
   map fst (idb (snd (evictLRUIfNeeded demoEnv 2 fullWorld)))
     = [getCacheKey ''key1'', ''other-app'', getCacheKey ''key4'']"
proof -
  have h: "reliable demoEnv" "distinct (map fst (idb fullWorld))"
    by (simp_all add: reliable_demoEnv fullWorld_def emptyWorld_def entryAt_def getCacheKey_def
          CACHE_PREFIX_def)
  have c: "int (length (cacheKeys fullWorld)) \<le> 5" "2 < int (length (cacheKeys fullWorld))"
    by (simp_all add: cacheKeys_fullWorld)
  have v: "map fst (idb (snd (evictLRUIfNeeded demoEnv 2 fullWorld)))
             = [getCacheKey ''key1'', ''other-app'', getCacheKey ''key4'']"
    by code_simp
  from evictLRUIfNeeded_cleanup_and_eviction [OF h, of 5]
       evictLRUIfNeeded_cleanup_and_eviction [OF h, of 2] h c v
  show ?thesis by blast
qed

text \<open>
  The claim as stated fails: with one expired namespaced entry in the store and
  \<open>maxEntries = 5\<close> the call returns at once and the expired entry stays.
\<close>

theorem evictLRUIfNeeded_skips_cleanup_counterexample:
  "isCacheKey (getCacheKey ''old'') \<and>
   expiresAt (snd (entryAt ''old'' 1050 1000)) < now staleWorld \<and>
   map_of (idb staleWorld) (getCacheKey ''old'') = Some (snd (entryAt ''old'' 1050 1000)) \<and>
   evictLRUIfNeeded demoEnv 5 staleWorld = (Inr (), staleWorld\<lparr>idbCalls := 1\<rparr>) \<and>
   map_of (idb (snd (evictLRUIfNeeded demoEnv 5 staleWorld))) (getCacheKey ''old'')
     = Some (snd (entryAt ''old'' 1050 1000))"
  by (simp add: evictLRUIfNeeded_def tryCatch_def bind_def ret_def idbKeys_def storeOp_def
        demoEnv_def noFault_def staleWorld_def emptyWorld_def entryAt_def isCacheKey_def
        getCacheKey_def CACHE_PREFIX_def)

section \<open>Properties of the backoff utility\<close>











section \<open>Properties of the data repository\<close>

subsection \<open>Evaluating the steps of an accessor\<close>










subsection \<open>The conditional fetch\<close>

lemma species_key_not_etag: "getCacheKey (key_species sid) \<noteq> getCacheKey (key_etag url)"
  by (simp add: getCacheKey_def key_species_def key_etag_def)








lemma cache_get_absent:
  "map_of (idb s) (getCacheKey k) = None \<Longrightarrow>
     fst (cache_get env k s) = Inr Undefined \<and> idb (snd (cache_get env k s)) = idb s"
  by (auto simp: cache_get_def tryCatch_def bind_def ret_def idbGet_def
        storeOp_def Let_def split: option.splits)












subsection \<open>\<open>getSpecies\<close>: blank and missing identifiers\<close>

text \<open>
  C6, as the code has it.  For an \<open>id\<close> that is the empty string, a string of white
  space only, \<open>null\<close> or \<open>undefined\<close>, \<open>getSpecies\<close> returns \<open>undefined\<close> at
  once: the world is unchanged, so no store operation and no \<open>fetch\<close> was made.
\<close>

theorem getSpecies_rejects_blank_or_nullish:
  assumes "arg = Undefined \<or> arg = Null \<or> (\<exists>str. arg = Str str \<and> trim str = [])"
  shows "getSpecies env arg s = (Inr Undefined, s)"
  using assms by (auto simp: getSpecies_def guardTrim_def ret_def)

theorem getSpecies_rejects_blank_or_nullish_witness:
  "trim '''' = [] \<and> trim ''   '' = [] \<and>
   getSpecies demoEnv (Str '''') emptyWorld = (Inr Undefined, emptyWorld) \<and>
   getSpecies demoEnv (Str ''   '') emptyWorld = (Inr Undefined, emptyWorld) \<and>
   getSpecies demoEnv Null emptyWorld = (Inr Undefined, emptyWorld) \<and>
   getSpecies demoEnv Undefined emptyWorld = (Inr Undefined, emptyWorld)"
proof -
  have t: "trim '''' = []" "trim ''   '' = []"
    by (simp_all add: trim_def isSpace_def)
  from getSpecies_rejects_blank_or_nullish [of "Str ''''" demoEnv emptyWorld]
       getSpecies_rejects_blank_or_nullish [of "Str ''   ''" demoEnv emptyWorld]
       getSpecies_rejects_blank_or_nullish [of Null demoEnv emptyWorld]
       getSpecies_rejects_blank_or_nullish [of Undefined demoEnv emptyWorld] t
  show ?thesis by simp
qed

text \<open>
  The claim as stated fails for the other values that are not strings: the optional
  chaining in \<open>!id?.trim()\<close> guards \<open>null\<close> and \<open>undefined\<close> only, and for the
  number 5 the call of \<open>trim\<close> raises a \<open>TypeError\<close> outside the \<open>try\<close> block.
\<close>

theorem getSpecies_non_string_counterexample:
  "getSpecies demoEnv (Num 5) emptyWorld = (Inl (Error ''trim is not a function''), emptyWorld)"
  by (simp add: getSpecies_def guardTrim_def throw_def)

subsection \<open>\<open>getSpecies\<close>: the bundled fallback fills the cache\<close>




subsection \<open>\<open>search\<close>: merging local and remote results\<close>



lemma speciesOf_map [simp]: "speciesOf (map SpeciesV xs) = xs"
  by (induction xs) (simp_all add: speciesOf_def)

lemma list_all_isSpecies_map [simp]: "list_all isSpecies (map SpeciesV xs)"
  by (induction xs) simp_all




subsection \<open>\<open>getPopulation\<close>: no bundled fallback\<close>






end
